theory Spec2Isabelle
  imports Main
begin

section \<open>Text model\<close>

text \<open>
  A Python \<open>str\<close> is a sequence of code points. The development covers texts whose code
  points lie in 0..255: a \<^typ>\<open>char\<close> stands for the code point \<^term>\<open>of_char c :: nat\<close>, and
  \<^typ>\<open>string\<close> for the text, so \<^const>\<open>length\<close> is Python's \<open>len\<close>. This range holds every
  character the processor names (the accented letters and the inverted marks of its allowlist
  included) and is closed under \<open>str.lower\<close>, the only case mapping the processor calls.
  The character classes below are those of CPython for this range: \<open>str.isspace\<close>, which is
  also what \<open>\s\<close>, \<open>str.strip()\<close> and \<open>str.split()\<close> use; \<open>\d\<close>; \<open>\w\<close>; \<open>str.isupper\<close> and
  \<open>str.islower\<close> on one character (no character of the range is titlecase).
\<close>

definition NL :: char where
  "NL = CHR 0x0A"

definition in_range :: "nat \<Rightarrow> nat \<Rightarrow> char \<Rightarrow> bool" where
  "in_range lo hi c = (lo \<le> of_char c \<and> (of_char c :: nat) \<le> hi)"

definition isspace :: "char \<Rightarrow> bool" where
  "isspace c = (in_range 0x09 0x0D c \<or> in_range 0x1C 0x20 c \<or> c = CHR 0x85 \<or> c = CHR 0xA0)"

definition isdigit :: "char \<Rightarrow> bool" where
  "isdigit c = in_range 0x30 0x39 c"

definition ch_isupper :: "char \<Rightarrow> bool" where
  "ch_isupper c = (in_range 0x41 0x5A c \<or> in_range 0xC0 0xD6 c \<or> in_range 0xD8 0xDE c)"

definition ch_islower :: "char \<Rightarrow> bool" where
  "ch_islower c =
     (in_range 0x61 0x7A c \<or> c = CHR 0xAA \<or> c = CHR 0xB5 \<or> c = CHR 0xBA \<or>
      in_range 0xDF 0xF6 c \<or> in_range 0xF8 0xFF c)"

definition isword :: "char \<Rightarrow> bool" where
  "isword c =
     (in_range 0x30 0x39 c \<or> in_range 0x41 0x5A c \<or> c = CHR 0x5F \<or> in_range 0x61 0x7A c \<or>
      c = CHR 0xAA \<or> in_range 0xB2 0xB3 c \<or> c = CHR 0xB5 \<or> in_range 0xB9 0xBA c \<or>
      in_range 0xBC 0xBE c \<or> in_range 0xC0 0xD6 c \<or> in_range 0xD8 0xF6 c \<or>
      in_range 0xF8 0xFF c)"

definition ch_lower :: "char \<Rightarrow> char" where
  "ch_lower c = (if ch_isupper c then char_of (of_char c + (32::nat)) else c)"

definition lower :: "string \<Rightarrow> string" where
  "lower s = map ch_lower s"

subsection \<open>String methods\<close>

definition strip :: "string \<Rightarrow> string" where
  "strip s = rev (dropWhile isspace (rev (dropWhile isspace s)))"

text \<open>\<open>s.split(sep)\<close> for a one-character separator: the empty text gives one empty piece.\<close>

fun split_on :: "char \<Rightarrow> string \<Rightarrow> string list" where
  "split_on sep [] = [[]]"
| "split_on sep (c # cs) =
     (if c = sep then [] # split_on sep cs
      else (case split_on sep cs of
              [] \<Rightarrow> [[c]]
            | p # ps \<Rightarrow> (c # p) # ps))"

fun join :: "string \<Rightarrow> string list \<Rightarrow> string" where
  "join sep [] = []"
| "join sep [l] = l"
| "join sep (l # ls) = l @ sep @ join sep ls"

definition startswith :: "string \<Rightarrow> string \<Rightarrow> bool" where
  "startswith s p = (take (length p) s = p)"

definition endswith :: "string \<Rightarrow> string \<Rightarrow> bool" where
  "endswith s p = (length p \<le> length s \<and> drop (length s - length p) s = p)"

text \<open>\<open>s.startswith(tuple)\<close> and \<open>s.endswith(tuple)\<close>.\<close>

definition startswith_any :: "string \<Rightarrow> string list \<Rightarrow> bool" where
  "startswith_any s ps = list_ex (startswith s) ps"

definition endswith_any :: "string \<Rightarrow> string list \<Rightarrow> bool" where
  "endswith_any s ps = list_ex (endswith s) ps"

text \<open>\<open>p in s\<close> on texts: \<open>p\<close> occurs in \<open>s\<close> as a contiguous piece.\<close>

fun contains :: "string \<Rightarrow> string \<Rightarrow> bool" where
  "contains [] p = (p = [])"
| "contains (c # cs) p = (startswith (c # cs) p \<or> contains cs p)"

text \<open>\<open>s.split()\<close>: the maximal runs of non-whitespace, in order.\<close>

fun words_from :: "string \<Rightarrow> string \<Rightarrow> string list" where
  "words_from w [] = (if w = [] then [] else [w])"
| "words_from w (c # cs) =
     (if isspace c then (if w = [] then words_from [] cs else w # words_from [] cs)
      else words_from (w @ [c]) cs)"

definition split_ws :: "string \<Rightarrow> string list" where
  "split_ws s = words_from [] s"

text \<open>
  \<open>str.isupper\<close> and \<open>str.istitle\<close>, as CPython's loops: \<open>isupper\<close> fails at the first
  lowercase character and otherwise answers whether an uppercase one was seen;
  \<open>istitle\<close> tracks whether the previous character was cased.
\<close>

fun isupper_loop :: "bool \<Rightarrow> string \<Rightarrow> bool" where
  "isupper_loop cased [] = cased"
| "isupper_loop cased (c # cs) =
     (if ch_islower c then False
      else isupper_loop (cased \<or> ch_isupper c) cs)"

definition isupper :: "string \<Rightarrow> bool" where
  "isupper s = isupper_loop False s"

fun istitle_loop :: "bool \<Rightarrow> bool \<Rightarrow> string \<Rightarrow> bool" where
  "istitle_loop previous_is_cased cased [] = cased"
| "istitle_loop previous_is_cased cased (c # cs) =
     (if ch_isupper c then
        (if previous_is_cased then False else istitle_loop True True cs)
      else if ch_islower c then
        (if \<not> previous_is_cased then False else istitle_loop True True cs)
      else istitle_loop False cased cs)"

definition istitle :: "string \<Rightarrow> bool" where
  "istitle s = istitle_loop False False s"

subsection \<open>Regular expressions of the processor\<close>

text \<open>
  \<open>re.sub\<close> of a pattern \<open>[P]{n,}\<close> (with \<open>1 \<le> n\<close>) by \<open>rep\<close>: scanning from the left, a maximal
  run of characters of the class \<open>P\<close> that has at least \<open>n\<close> characters is replaced by \<open>rep\<close>;
  a shorter run matches nowhere and is copied. This is \<open>\s+\<close>, \<open> +\<close> (\<open>n = 1\<close>) and
  \<open>\.{2,}\<close>, \<open>\?{2,}\<close>, \<open>!{2,}\<close> (\<open>n = 2\<close>).
\<close>

function sub_run :: "nat \<Rightarrow> (char \<Rightarrow> bool) \<Rightarrow> string \<Rightarrow> string \<Rightarrow> string" where
  "sub_run n P rep [] = []"
| "sub_run n P rep (c # cs) =
     (if P c \<and> n \<le> Suc (length (takeWhile P cs))
      then rep @ sub_run n P rep (dropWhile P cs)
      else c # sub_run n P rep cs)"
  by pat_completeness auto
termination
  by (relation "measure (\<lambda>(n, P, rep, s). length s)")
     (auto simp: length_dropWhile_le le_imp_less_Suc)

text \<open>
  \<open>re.sub(r'\n\s*\n\s*\n+', '\n\n', text)\<close>. Every character the pattern can consume is
  whitespace, so a match that starts at a newline stays inside the maximal whitespace run \<open>w\<close>
  that starts there; it exists iff \<open>w\<close> holds at least three newlines, and the greedy
  quantifiers make it end right after the last newline of \<open>w\<close>.
\<close>

definition upto_last_nl :: "string \<Rightarrow> nat" where
  "upto_last_nl w = length w - length (takeWhile (\<lambda>x. x \<noteq> NL) (rev w))"

fun sub_newlines :: "string \<Rightarrow> string" where
  "sub_newlines [] = []"
| "sub_newlines (c # cs) =
     (let w = takeWhile isspace (c # cs) in
      if c = NL \<and> 3 \<le> count_list w NL
      then [NL, NL] @ sub_newlines (drop (upto_last_nl w - 1) cs)
      else c # sub_newlines cs)"

text \<open>
  The allowlist of the third cleanup pattern,
  \<open>[^\w\s\-.,;:!?\<dots>()[\]"\'/]\<close>: word characters, whitespace, the listed punctuation, the
  inverted marks (0xA1, 0xBF); the accented letters it lists are word characters already.
\<close>

definition allowed_char :: "char \<Rightarrow> bool" where
  "allowed_char c =
     (isword c \<or> isspace c \<or> c \<in> set ''-.,;:!?()[]\"/'' \<or> c = CHR 0x27 \<or>
      c = CHR 0xA1 \<or> c = CHR 0xBF)"

definition sub_disallowed :: "string \<Rightarrow> string" where
  "sub_disallowed s = filter allowed_char s"

text \<open>
  \<open>re.match(r'^\d+\s*(min|sec|hr|minute|second|hour)', s)\<close>: digits, optional whitespace, then
  one of the words. The words start with letters, so giving back digits or whitespace
  never helps and the greedy reading is the only one.
\<close>

definition match_duration :: "string \<Rightarrow> bool" where
  "match_duration s =
     (takeWhile isdigit s \<noteq> [] \<and>
      startswith_any (dropWhile isspace (dropWhile isdigit s))
        [''min'', ''sec'', ''hr'', ''minute'', ''second'', ''hour''])"

text \<open>
  \<open>re.match(r'^(step \d+|unit \d+|\d+\.)$', s)\<close>; \<open>$\<close> also matches before one final
  newline.
\<close>

definition digits1 :: "string \<Rightarrow> bool" where
  "digits1 s = (s \<noteq> [] \<and> list_all isdigit s)"

definition marker_body :: "string \<Rightarrow> bool" where
  "marker_body s =
     ((startswith s ''step '' \<and> digits1 (drop 5 s)) \<or>
      (startswith s ''unit '' \<and> digits1 (drop 5 s)) \<or>
      (endswith s ''.'' \<and> digits1 (butlast s)))"

definition match_marker :: "string \<Rightarrow> bool" where
  "match_marker s = (marker_body s \<or> (endswith s [NL] \<and> marker_body (butlast s)))"

text \<open>
  \<open>re.split(r'(?<=[.!?])\s+', text)\<close>: a match is a maximal whitespace run that directly
  follows one of \<open>.\<close>, \<open>!\<close>, \<open>?\<close>. \<open>piece\<close> is the text since the last match; the character
  before the current position is its last one (after a match the next character is not
  whitespace, so nothing is looked behind across a match).
\<close>

function split_sentences :: "string \<Rightarrow> string \<Rightarrow> string list" where
  "split_sentences piece [] = [piece]"
| "split_sentences piece (c # cs) =
     (if isspace c \<and> endswith_any piece [''.'', ''!'', ''?'']
      then piece # split_sentences [] (dropWhile isspace cs)
      else split_sentences (piece @ [c]) cs)"
  by pat_completeness auto
termination
  by (relation "measure (\<lambda>(piece, s). length s)")
     (auto simp: length_dropWhile_le le_imp_less_Suc)

section \<open>The text processor\<close>

text \<open>The cleanup patterns, in the order of the list in \<open>__init__\<close>.\<close>

definition cleanup_patterns :: "(string \<Rightarrow> string) list" where
  "cleanup_patterns =
     [sub_run 1 isspace '' '',
      sub_newlines,
      sub_disallowed,
      sub_run 2 (\<lambda>c. c = CHR ''.'') ''.'',
      sub_run 2 (\<lambda>c. c = CHR ''?'') ''?'',
      sub_run 2 (\<lambda>c. c = CHR ''!'') ''!'']"

definition filter_phrases :: "string list" where
  "filter_phrases =
     [''skip to main content'', ''breadcrumb navigation'', ''table of contents'',
      ''in this article'', ''next steps'', ''feedback'', ''was this page helpful'',
      ''submit and view feedback'', ''microsoft learn'', ''sign in'', ''search'',
      ''browse'', ''theme'', ''light'', ''dark'', ''high contrast'', ''previous unit'',
      ''next unit'', ''completed'', ''check your knowledge'', ''knowledge check'',
      ''leer en ingles'', ''agregar'', ''agregar al plan'', ''logros'', ''preguntar a learn'',
      ''completado'',
      ''comentarios'', ''le ha resultado util esta pagina'',
      ''minutos'']"

text \<open>\<open>_basic_cleanup\<close>: each pattern is substituted in turn.\<close>

definition basic_cleanup :: "string \<Rightarrow> string" where
  "basic_cleanup text = fold (\<lambda>sub t. sub t) cleanup_patterns text"

text \<open>
  \<open>_filter_unwanted_content\<close>. \<open>phrase_loop\<close> is the inner loop over the phrases with its
  \<open>break\<close>; \<open>filter_loop\<close> is the loop over the lines, \<open>filtered_lines\<close> its accumulator.
\<close>

fun phrase_loop :: "string list \<Rightarrow> string \<Rightarrow> bool" where
  "phrase_loop [] line_lower = False"
| "phrase_loop (phrase # phrases) line_lower =
     (if contains line_lower phrase then True else phrase_loop phrases line_lower)"

fun filter_loop :: "string list \<Rightarrow> string list \<Rightarrow> string list" where
  "filter_loop [] filtered_lines = filtered_lines"
| "filter_loop (l # lines) filtered_lines =
     (let line = strip l; line_lower = lower line in
      if length line < 3 then filter_loop lines filtered_lines
      else
        let should_filter = phrase_loop filter_phrases line_lower;
            should_filter =
              (if startswith_any line_lower [''http'', ''www.'', ''mailto:''] \<or>
                  endswith_any line_lower [''min'', ''sec'', ''hr''] \<or>
                  match_duration line_lower \<or>
                  match_marker line_lower
               then True else should_filter)
        in if \<not> should_filter then filter_loop lines (filtered_lines @ [line])
           else filter_loop lines filtered_lines)"

definition filter_unwanted_content :: "string \<Rightarrow> string" where
  "filter_unwanted_content text = join [NL] (filter_loop (split_on NL text) [])"

text \<open>\<open>_is_heading\<close>.\<close>

definition is_heading :: "string \<Rightarrow> bool" where
  "is_heading line =
     (length line < 100 \<and>
      \<not> endswith_any line [''.'', ''!'', ''?'', '','', '';'', '':''] \<and>
      (isupper line \<or> istitle line \<or> list_ex isupper (split_ws line)))"

text \<open>\<open>_structure_for_audio\<close>: the loop over the lines, \<open>structured_lines\<close> its accumulator.\<close>

fun structure_loop :: "string list \<Rightarrow> string list \<Rightarrow> string list" where
  "structure_loop [] structured_lines = structured_lines"
| "structure_loop (l # lines) structured_lines =
     (let line = strip l in
      if line = [] then structure_loop lines structured_lines
      else if is_heading line
      then structure_loop lines (structured_lines @ [line @ ''.'', []])
      else
        let line = (if line \<noteq> [] \<and> \<not> last line \<in> set ''.!?'' then line @ ''.'' else line)
        in structure_loop lines (structured_lines @ [line]))"

definition structure_for_audio :: "string \<Rightarrow> string" where
  "structure_for_audio text = join [NL] (structure_loop (split_on NL text) [])"

text \<open>\<open>_normalize_spacing\<close>.\<close>

definition normalize_spacing :: "string \<Rightarrow> string" where
  "normalize_spacing text =
     (let text = sub_run 1 (\<lambda>c. c = CHR '' '') '' '' text;
          text = sub_newlines text;
          lines = map strip (split_on NL text)
      in join [NL] lines)"

text \<open>
  \<open>clean_and_structure\<close>. The argument is \<open>None\<close> or a text; \<open>not raw_text\<close> holds for \<open>None\<close>
  and for the empty text.
\<close>

definition clean_and_structure :: "string option \<Rightarrow> string" where
  "clean_and_structure raw_text =
     (case raw_text of
        None \<Rightarrow> []
      | Some raw \<Rightarrow>
          if raw = [] then []
          else
            let text = basic_cleanup raw;
                text = filter_unwanted_content text;
                text = structure_for_audio text;
                text = normalize_spacing text
            in strip text)"

text \<open>
  \<open>split_into_chunks\<close>. \<open>text.strip()\<close> is the first thing evaluated, and \<open>None\<close> has no
  such attribute. \<open>max_chunk_size\<close> is a Python integer.
\<close>

datatype py_error = AttributeError

definition with_terminator :: "string \<Rightarrow> string" where
  "with_terminator sentence =
     (if endswith_any sentence [''.'', ''!'', ''?''] then sentence else sentence @ ''.'')"

fun chunk_loop :: "int \<Rightarrow> string list \<Rightarrow> string list \<Rightarrow> string \<Rightarrow> string list \<times> string" where
  "chunk_loop max_chunk_size [] chunks current_chunk = (chunks, current_chunk)"
| "chunk_loop max_chunk_size (sentence # sentences) chunks current_chunk =
     (let sentence_with_space = with_terminator sentence @ '' '' in
      if int (length current_chunk) + int (length sentence_with_space) > max_chunk_size
      then chunk_loop max_chunk_size sentences
             (if current_chunk \<noteq> [] then chunks @ [strip current_chunk] else chunks)
             sentence_with_space
      else chunk_loop max_chunk_size sentences chunks (current_chunk @ sentence_with_space))"

definition sentences_of :: "string \<Rightarrow> string list" where
  "sentences_of text =
     map strip (filter (\<lambda>s. strip s \<noteq> []) (split_sentences [] (strip text)))"

definition split_into_chunks :: "string option \<Rightarrow> int \<Rightarrow> py_error + string list" where
  "split_into_chunks text max_chunk_size =
     (case text of
        None \<Rightarrow> Inl AttributeError
      | Some t \<Rightarrow>
          (case chunk_loop max_chunk_size (sentences_of t) [] [] of
             (chunks, current_chunk) \<Rightarrow>
               Inr (if current_chunk \<noteq> [] then chunks @ [strip current_chunk] else chunks)))"

section \<open>Specification-level notions\<close>

text \<open>
  The noise rules as the specification lists them (length, phrase list, URL prefixes, time
  suffixes, the duration pattern, the marker pattern), on a trimmed line; matching is against
  the lowercased line.
\<close>

definition spec_is_noise :: "string \<Rightarrow> bool" where
  "spec_is_noise line =
     (length line < 3 \<or>
      (\<exists>phrase \<in> set filter_phrases. contains (lower line) phrase) \<or>
      startswith_any (lower line) [''http'', ''www.'', ''mailto:''] \<or>
      endswith_any (lower line) [''min'', ''sec'', ''hr''] \<or>
      match_duration (lower line) \<or>
      match_marker (lower line))"

text \<open>
  What the specification has the structuring pass emit for one non-empty trimmed line: a
  heading with a \<open>.\<close> and then an empty line; any other line with a \<open>.\<close> appended unless it
  ends in \<open>.\<close>, \<open>!\<close> or \<open>?\<close>.
\<close>

definition spec_structure_line :: "string \<Rightarrow> string list" where
  "spec_structure_line line =
     (if is_heading line then [line @ ''.'', []]
      else if last line \<in> {CHR ''.'', CHR ''!'', CHR ''?''} then [line]
      else [line @ ''.''])"

text \<open>A text is trimmed when it is not empty and has no whitespace at either end.\<close>

definition trimmed :: "string \<Rightarrow> bool" where
  "trimmed s = (s \<noteq> [] \<and> \<not> isspace (hd s) \<and> \<not> isspace (last s))"

text \<open>
  The text of a chunk that holds the sentences \<open>g\<close>: their terminated forms joined by single
  spaces. \<open>buffer_of g\<close> is the running buffer after the sentences \<open>g\<close> were added to an empty
  one (each terminated sentence followed by a space); a group fits the bound when it is a
  single sentence or its buffer is no longer than the bound.
\<close>

definition chunk_text :: "string list \<Rightarrow> string" where
  "chunk_text g = join '' '' (map with_terminator g)"

definition buffer_of :: "string list \<Rightarrow> string" where
  "buffer_of g = concat (map (\<lambda>s. with_terminator s @ '' '') g)"

definition fits :: "int \<Rightarrow> string list \<Rightarrow> bool" where
  "fits m g = (length g \<le> 1 \<or> int (length (buffer_of g)) \<le> m)"

text \<open>
  The three alternatives of the heading rule, stated on the characters: a text is uppercase
  when it has an uppercase character and no lowercase one; it is title-case when it has a
  cased character, every uppercase character stands at the start or after an uncased
  character, and every lowercase character stands after a cased one.
\<close>

definition cased :: "char \<Rightarrow> bool" where
  "cased c = (ch_isupper c \<or> ch_islower c)"

definition all_upper :: "string \<Rightarrow> bool" where
  "all_upper s = ((\<exists>c \<in> set s. ch_isupper c) \<and> (\<forall>c \<in> set s. \<not> ch_islower c))"

definition title_case :: "string \<Rightarrow> bool" where
  "title_case s =
     ((\<exists>c \<in> set s. cased c) \<and>
      (\<forall>i \<in> {..<length s}.
         (ch_isupper (s ! i) \<longrightarrow> i = 0 \<or> \<not> cased (s ! (i - 1))) \<and>
         (ch_islower (s ! i) \<longrightarrow> 0 < i \<and> cased (s ! (i - 1)))))"

text \<open>
  \<open>squeeze\<close> is the substitution \<open> +\<close> by one space of the second normalizer pass;
  \<open>emitted_line\<close> is the text line the structuring pass emits for a trimmed line (without
  the empty line that follows a heading).
\<close>

definition squeeze :: "string \<Rightarrow> string" where
  "squeeze s = sub_run 1 (\<lambda>c. c = CHR '' '') '' '' s"

definition emitted_line :: "string \<Rightarrow> string" where
  "emitted_line line = hd (spec_structure_line line)"

text \<open>
  Shape of a cleaned text: \<open>no_double P s\<close> says that no two adjacent characters of \<open>s\<close> are
  both in the class \<open>P\<close>; a text is plain when its only whitespace is the space character and
  all its characters are on the allowlist; it is tidy when it is plain and has no doubled
  \<open>.\<close>, \<open>?\<close> or \<open>!\<close>.
\<close>

fun no_double :: "(char \<Rightarrow> bool) \<Rightarrow> string \<Rightarrow> bool" where
  "no_double P [] = True"
| "no_double P [x] = True"
| "no_double P (x # y # zs) = (\<not> (P x \<and> P y) \<and> no_double P (y # zs))"

definition plain :: "string \<Rightarrow> bool" where
  "plain s = (\<forall>c \<in> set s. (isspace c \<longrightarrow> c = CHR '' '') \<and> allowed_char c)"

definition tidy :: "string \<Rightarrow> bool" where
  "tidy s =
     ((\<forall>c \<in> set s. isspace c \<longrightarrow> c = CHR '' '') \<and>
      (\<forall>c \<in> set s. allowed_char c) \<and>
      no_double (\<lambda>c. c = CHR ''.'') s \<and>
      no_double (\<lambda>c. c = CHR ''?'') s \<and>
      no_double (\<lambda>c. c = CHR ''!'') s)"

section \<open>Basic facts about the string operations\<close>

lemma isspace_NL [simp]: "isspace NL"
  by (simp add: isspace_def NL_def in_range_def)

lemma strip_Nil [simp]: "strip [] = []"
  by (simp add: strip_def)

lemma set_strip: "set (strip s) \<subseteq> set s"
proof -
  have "set (strip s) \<subseteq> set (dropWhile isspace s)"
    unfolding strip_def using set_dropWhileD by fastforce
  also have "\<dots> \<subseteq> set s"
    using set_dropWhileD by fastforce
  finally show ?thesis .
qed

lemma split_on_nonempty [simp]: "split_on sep s \<noteq> []"
  by (induction s) (auto split: list.splits)

lemma split_on_no_sep: "p \<in> set (split_on sep s) \<Longrightarrow> sep \<notin> set p"
  by (induction s arbitrary: p) (auto split: list.splits if_splits)

lemma split_on_id: "sep \<notin> set s \<Longrightarrow> split_on sep s = [s]"
  by (induction s) auto

lemma split_on_append_sep:
  "sep \<notin> set a \<Longrightarrow> split_on sep (a @ sep # b) = a # split_on sep b"
  by (induction a) auto

lemma split_on_join_Cons:
  "\<forall>l \<in> set (l0 # ls). sep \<notin> set l \<Longrightarrow> split_on sep (join [sep] (l0 # ls)) = l0 # ls"
proof (induction ls arbitrary: l0)
  case Nil
  then show ?case by (simp add: split_on_id)
next
  case (Cons l1 ls)
  have "join [sep] (l0 # l1 # ls) = l0 @ sep # join [sep] (l1 # ls)" by simp
  moreover have "split_on sep (join [sep] (l1 # ls)) = l1 # ls"
    using Cons.IH [of l1] Cons.prems by simp
  ultimately show ?case using Cons.prems by (simp add: split_on_append_sep)
qed

lemma split_on_join:
  "ls \<noteq> [] \<Longrightarrow> \<forall>l \<in> set ls. sep \<notin> set l \<Longrightarrow> split_on sep (join [sep] ls) = ls"
  by (cases ls) (auto simp: split_on_join_Cons)

lemma isspace_space [simp]: "isspace (CHR '' '')"
  by (simp add: isspace_def in_range_def)

lemma not_isspace_punct [simp]:
  "\<not> isspace (CHR ''.'')" "\<not> isspace (CHR ''!'')" "\<not> isspace (CHR ''?'')"
  by (simp_all add: isspace_def in_range_def)

lemma dropWhile_id: "s = [] \<or> \<not> P (hd s) \<Longrightarrow> dropWhile P s = s"
  by (cases s) auto

lemma strip_trimmed: "trimmed s \<Longrightarrow> strip s = s"
  by (simp add: trimmed_def strip_def dropWhile_id hd_rev)

lemma trimmed_strip: "strip s \<noteq> [] \<Longrightarrow> trimmed (strip s)"
proof -
  assume ne: "strip s \<noteq> []"
  let ?a = "dropWhile isspace s"
  let ?b = "dropWhile isspace (rev ?a)"
  have b: "?b \<noteq> []" using ne by (simp add: strip_def)
  have a: "?a \<noteq> []"
  proof
    assume "?a = []"
    then have "?b = []" by (simp only: rev.simps dropWhile.simps)
    with b show False ..
  qed
  have "\<not> isspace (hd ?b)" using b by (rule hd_dropWhile)
  then have l: "\<not> isspace (last (strip s))" using b by (simp add: strip_def last_rev)
  have "\<exists>pre. rev ?a = pre @ ?b"
    by (metis takeWhile_dropWhile_id)
  then obtain pre where "rev ?a = pre @ ?b" ..
  then have "?a = rev ?b @ rev pre" by (metis rev_append rev_rev_ident)
  then have "hd ?a = hd (rev ?b)" using b by (metis hd_append2 rev_is_Nil_conv)
  moreover have "\<not> isspace (hd ?a)" using a by (rule hd_dropWhile)
  ultimately have "\<not> isspace (hd (strip s))" by (simp add: strip_def)
  with l ne show ?thesis by (simp add: trimmed_def)
qed

lemma strip_append_space: "trimmed s \<Longrightarrow> strip (s @ '' '') = s"
proof -
  assume t: "trimmed s"
  then have "dropWhile isspace (s @ '' '') = s @ '' ''"
    by (simp add: trimmed_def dropWhile_id)
  moreover have "dropWhile isspace (rev s) = rev s"
    using t by (simp add: trimmed_def dropWhile_id hd_rev)
  ultimately show ?thesis by (simp add: strip_def)
qed

lemma endswith_single: "endswith s [c] = (s \<noteq> [] \<and> last s = c)"
proof (cases s rule: rev_cases)
  case Nil
  then show ?thesis by (simp add: endswith_def)
next
  case (snoc ys y)
  then show ?thesis by (auto simp: endswith_def)
qed

lemma ends_terminal:
  "endswith_any s [''.'', ''!'', ''?''] = (s \<noteq> [] \<and> last s \<in> {CHR ''.'', CHR ''!'', CHR ''?''})"
  by (auto simp: endswith_any_def endswith_single)

lemma join_Cons2: "ls \<noteq> [] \<Longrightarrow> join sep (l # ls) = l @ sep @ join sep ls"
  by (cases ls) simp_all

lemma join_append:
  "xs \<noteq> [] \<Longrightarrow> ys \<noteq> [] \<Longrightarrow> join sep (xs @ ys) = join sep xs @ sep @ join sep ys"
proof (induction xs)
  case Nil
  then show ?case by simp
next
  case (Cons x xs)
  show ?case
  proof (cases "xs = []")
    case True
    then show ?thesis using Cons.prems by (simp add: join_Cons2)
  next
    case False
    then show ?thesis using Cons by (simp add: join_Cons2)
  qed
qed

lemma join_concat:
  "[] \<notin> set gs \<Longrightarrow> join sep (map (join sep) gs) = join sep (concat gs)"
proof (induction gs)
  case Nil
  then show ?case by simp
next
  case (Cons g gs)
  show ?case
  proof (cases "gs = []")
    case True
    then show ?thesis by simp
  next
    case False
    with Cons.prems have c: "concat gs \<noteq> []" by (cases gs) auto
    from Cons.prems have g: "g \<noteq> []" by auto
    have "join sep (map (join sep) (g # gs)) = join sep g @ sep @ join sep (map (join sep) gs)"
      using False by (simp add: join_Cons2)
    also have "\<dots> = join sep g @ sep @ join sep (concat gs)"
      using Cons by simp
    also have "\<dots> = join sep (g @ concat gs)"
      using g c by (simp add: join_append)
    finally show ?thesis by simp
  qed
qed

lemma join_space_buffer:
  "xs \<noteq> [] \<Longrightarrow> join '' '' xs @ '' '' = concat (map (\<lambda>x. x @ '' '') xs)"
proof (induction xs)
  case Nil
  then show ?case by simp
next
  case (Cons x xs)
  then show ?case by (cases "xs = []") (simp_all add: join_Cons2)
qed

lemma join_hd: "xs \<noteq> [] \<Longrightarrow> hd xs \<noteq> [] \<Longrightarrow> hd (join sep xs) = hd (hd xs)"
  by (cases xs; cases "tl xs = []") (auto simp: join_Cons2)

lemma join_last:
  "xs \<noteq> [] \<Longrightarrow> last xs \<noteq> [] \<Longrightarrow> join sep xs \<noteq> [] \<and> last (join sep xs) = last (last xs)"
proof (induction xs)
  case Nil
  then show ?case by simp
next
  case (Cons x xs)
  then show ?case by (cases "xs = []") (simp_all add: join_Cons2)
qed

lemma filter_dropWhile_neg: "filter (\<lambda>c. \<not> P c) (dropWhile P s) = filter (\<lambda>c. \<not> P c) s"
  by (induction s) auto

lemma filter_strip: "filter (\<lambda>c. \<not> isspace c) (strip s) = filter (\<lambda>c. \<not> isspace c) s"
proof -
  have "filter (\<lambda>c. \<not> isspace c) (strip s)
          = rev (filter (\<lambda>c. \<not> isspace c) (dropWhile isspace (rev (dropWhile isspace s))))"
    by (simp add: strip_def rev_filter)
  also have "\<dots> = rev (filter (\<lambda>c. \<not> isspace c) (rev (dropWhile isspace s)))"
    by (simp only: filter_dropWhile_neg)
  also have "\<dots> = filter (\<lambda>c. \<not> isspace c) (dropWhile isspace s)"
    by (simp add: rev_filter)
  finally show ?thesis by (simp only: filter_dropWhile_neg)
qed

section \<open>The cleanup pass joins lines\<close>

text \<open>
  C1. The first cleanup pattern is \<open>\s+\<close>, and \<open>\s\<close> matches a newline: on the two-line
  text \<open>a\<newline>b\<close> the cleanup pass returns the single line \<open>a b\<close>, so the line structure of
  the input is not preserved.
\<close>

theorem basic_cleanup_joins_lines: "basic_cleanup ''a\<newline>b'' = ''a b''"
  by code_simp

section \<open>Empty and absent input\<close>

text \<open>
  C2. As stated the claim fails for \<open>split_into_chunks\<close> on absent input: the call raises
  instead of returning an empty result.
\<close>

theorem split_into_chunks_absent_raises:
  "split_into_chunks None 4000 = Inl AttributeError \<and> split_into_chunks None 4000 \<noteq> Inr []"
  by (simp add: split_into_chunks_def)

text \<open>
  C2, amended. \<open>clean_and_structure\<close> returns the empty text for the empty text and for
  absent input; \<open>split_into_chunks\<close> returns the empty sequence for the empty text, whatever
  the size bound, and raises on absent input.
\<close>

theorem empty_input_results:
  "clean_and_structure None = [] \<and> clean_and_structure (Some []) = [] \<and>
   split_into_chunks (Some []) m = Inr [] \<and> split_into_chunks None m = Inl AttributeError"
  by (simp add: clean_and_structure_def split_into_chunks_def sentences_of_def)

section \<open>The line filter\<close>

lemma phrase_loop_ex: "phrase_loop ps l = (\<exists>p \<in> set ps. contains l p)"
  by (induction ps) auto

lemma filter_loop_eq:
  "filter_loop lines acc = acc @ filter (\<lambda>l. \<not> spec_is_noise l) (map strip lines)"
  by (induction lines arbitrary: acc) (simp_all add: Let_def spec_is_noise_def phrase_loop_ex)

lemma filter_unwanted_content_eq:
  "filter_unwanted_content text =
     join [NL] (filter (\<lambda>l. \<not> spec_is_noise l) (map strip (split_on NL text)))"
  by (simp add: filter_unwanted_content_def filter_loop_eq)

lemma helpful_in_phrases: "''was this page helpful'' \<in> set filter_phrases"
  by (simp add: filter_phrases_def)

lemma filtered_lines_not_helpful:
  assumes "l \<in> set (split_on NL (filter_unwanted_content text))"
  shows "\<not> contains (lower l) ''was this page helpful''"
proof -
  let ?ls = "filter (\<lambda>l. \<not> spec_is_noise l) (map strip (split_on NL text))"
  have nonl: "\<forall>l \<in> set ?ls. NL \<notin> set l"
    using split_on_no_sep set_strip by fastforce
  show ?thesis
  proof (cases "?ls = []")
    case True
    with assms have "l = []" by (simp add: filter_unwanted_content_eq)
    then show ?thesis by (simp add: lower_def)
  next
    case False
    with assms nonl have "l \<in> set ?ls"
      by (simp add: filter_unwanted_content_eq split_on_join)
    then have "\<not> spec_is_noise l" by simp
    then show ?thesis using helpful_in_phrases unfolding spec_is_noise_def by blast
  qed
qed

text \<open>
  C7. The filter returns, joined by newlines, exactly the trimmed input lines that match no
  noise rule, in their order; no line of its output contains \<open>was this page helpful\<close> in any
  letter case, and the line \<open>Was this page helpful? Yes No\<close> is noise.
\<close>

theorem filter_keeps_exactly_content_lines:
  "filter_unwanted_content text =
     join [NL] (filter (\<lambda>l. \<not> spec_is_noise l) (map strip (split_on NL text))) \<and>
   (\<forall>l \<in> set (split_on NL (filter_unwanted_content text)).
      \<not> contains (lower l) ''was this page helpful'') \<and>
   spec_is_noise ''Was this page helpful? Yes No''"
proof (intro conjI ballI)
  show "filter_unwanted_content text =
          join [NL] (filter (\<lambda>l. \<not> spec_is_noise l) (map strip (split_on NL text)))"
    by (rule filter_unwanted_content_eq)
next
  fix l
  assume "l \<in> set (split_on NL (filter_unwanted_content text))"
  then show "\<not> contains (lower l) ''was this page helpful''"
    by (rule filtered_lines_not_helpful)
next
  show "spec_is_noise ''Was this page helpful? Yes No''"
    by code_simp
qed

theorem filter_keeps_exactly_content_lines_witness:
  "filter_unwanted_content ''Hello world\<newline>Was this page helpful? Yes No\<newline>  Bye now ''
     = ''Hello world\<newline>Bye now'' \<and>
   \<not> contains (lower ''Hello world'') ''was this page helpful'' \<and>
   \<not> contains (lower ''Bye now'') ''was this page helpful''"
proof -
  let ?t = "''Hello world\<newline>Was this page helpful? Yes No\<newline>  Bye now ''"
  note main = filter_keeps_exactly_content_lines [of ?t]
  have v: "join [NL] (filter (\<lambda>l. \<not> spec_is_noise l) (map strip (split_on NL ?t)))
             = ''Hello world\<newline>Bye now''"
    by code_simp
  have s: "split_on NL ''Hello world\<newline>Bye now'' = [''Hello world'', ''Bye now'']"
    by code_simp
  from main [THEN conjunct1] v
  have e: "filter_unwanted_content ?t = ''Hello world\<newline>Bye now''"
    by (rule trans)
  from main [THEN conjunct2, THEN conjunct1]
  have "\<forall>l \<in> set [''Hello world'', ''Bye now''].
          \<not> contains (lower l) ''was this page helpful''"
    by (simp only: e s)
  then have "\<not> contains (lower ''Hello world'') ''was this page helpful'' \<and>
             \<not> contains (lower ''Bye now'') ''was this page helpful''"
    by (simp only: list.set ball_simps) simp
  with e show ?thesis by (rule conjI)
qed

section \<open>The structuring pass\<close>

lemma structure_loop_eq:
  "structure_loop lines acc =
     acc @ concat (map spec_structure_line (filter (\<lambda>l. l \<noteq> []) (map strip lines)))"
  by (induction lines arbitrary: acc) (simp_all add: Let_def spec_structure_line_def)

text \<open>
  C5. The pass trims every line, skips the empty ones, and emits for each remaining line what
  the specification says: a heading followed by \<open>.\<close> and then an empty line, any other line
  with a \<open>.\<close> appended unless it ends in \<open>.\<close>, \<open>!\<close> or \<open>?\<close>. The line
  \<open>POWER PLATFORM OVERVIEW\<close> is a heading and is followed by an empty line;
  \<open>This has no period\<close> becomes \<open>This has no period.\<close>.
\<close>

theorem structure_for_audio_per_line:
  "structure_for_audio text =
     join [NL] (concat (map spec_structure_line
                          (filter (\<lambda>l. l \<noteq> []) (map strip (split_on NL text))))) \<and>
   is_heading ''POWER PLATFORM OVERVIEW'' \<and>
   split_on NL (structure_for_audio ''POWER PLATFORM OVERVIEW'')
     = [''POWER PLATFORM OVERVIEW.'', []] \<and>
   structure_for_audio ''This has no period'' = ''This has no period.''"
proof (intro conjI)
  show "structure_for_audio text =
     join [NL] (concat (map spec_structure_line
                          (filter (\<lambda>l. l \<noteq> []) (map strip (split_on NL text)))))"
    unfolding structure_for_audio_def structure_loop_eq by simp
next
  show "is_heading ''POWER PLATFORM OVERVIEW''" by code_simp
next
  show "split_on NL (structure_for_audio ''POWER PLATFORM OVERVIEW'')
          = [''POWER PLATFORM OVERVIEW.'', []]" by code_simp
next
  show "structure_for_audio ''This has no period'' = ''This has no period.''"
    by code_simp
qed

theorem structure_for_audio_per_line_witness:
  "structure_for_audio ''OVERVIEW\<newline>\<newline> It works ''
     = ''OVERVIEW.\<newline>\<newline>It works.''"
proof -
  let ?t = "''OVERVIEW\<newline>\<newline> It works ''"
  have v: "join [NL] (concat (map spec_structure_line
             (filter (\<lambda>l. l \<noteq> []) (map strip (split_on NL ?t)))))
           = ''OVERVIEW.\<newline>\<newline>It works.''"
    by code_simp
  from structure_for_audio_per_line [of ?t, THEN conjunct1] v show ?thesis
    by (rule trans)
qed

section \<open>The heading detector\<close>

lemma upper_not_lower: "ch_isupper c \<Longrightarrow> \<not> ch_islower c"
  by (auto simp: ch_isupper_def ch_islower_def in_range_def)

lemma isupper_loop_eq:
  "isupper_loop seen s = ((seen \<or> (\<exists>c \<in> set s. ch_isupper c)) \<and> (\<forall>c \<in> set s. \<not> ch_islower c))"
  by (induction s arbitrary: seen) (auto simp: upper_not_lower)

lemma isupper_eq: "isupper s = all_upper s"
  by (simp add: isupper_def all_upper_def isupper_loop_eq)

lemma istitle_loop_eq:
  "istitle_loop prev seen s =
     ((seen \<or> (\<exists>c \<in> set s. cased c)) \<and>
      (\<forall>i < length s.
         (ch_isupper (s ! i) \<longrightarrow> \<not> (if i = 0 then prev else cased (s ! (i - 1)))) \<and>
         (ch_islower (s ! i) \<longrightarrow> (if i = 0 then prev else cased (s ! (i - 1))))))"
proof (induction s arbitrary: prev seen)
  case Nil
  then show ?case by simp
next
  case (Cons c cs)
  have split: "\<And>P. (\<forall>i < length (c # cs). P i) = (P 0 \<and> (\<forall>i < length cs. P (Suc i)))"
    by (auto simp: less_Suc_eq_0_disj)
  have shift: "\<And>i b. (if Suc i = 0 then b else cased ((c # cs) ! (Suc i - 1)))
                   = (if i = 0 then cased c else cased (cs ! (i - 1)))"
    by (case_tac i) simp_all
  show ?case
    unfolding split shift
    by (simp add: Cons.IH cased_def upper_not_lower)
qed

lemma istitle_eq: "istitle s = title_case s"
proof -
  have a: "\<And>i Q. (if i = (0::nat) then False else Q) = (0 < i \<and> Q)" by auto
  have b: "\<And>i Q. (\<not> (0 < i \<and> Q)) = (i = (0::nat) \<or> \<not> Q)" by auto
  show ?thesis
    unfolding istitle_def title_case_def istitle_loop_eq a b
    by (simp add: Ball_def)
qed

text \<open>
  C8. A line is a heading if and only if it is shorter than 100 characters, does not end in
  \<open>.\<close>, \<open>!\<close>, \<open>?\<close>, \<open>,\<close>, \<open>;\<close> or \<open>:\<close>, and the whole line is uppercase, or the whole line is
  title-case, or one of its whitespace-delimited words is uppercase.
\<close>

theorem is_heading_iff:
  "is_heading line \<longleftrightarrow>
     length line < 100 \<and>
     (line = [] \<or> last line \<notin> {CHR ''.'', CHR ''!'', CHR ''?'', CHR '','', CHR '';'', CHR '':''}) \<and>
     (all_upper line \<or> title_case line \<or> (\<exists>w \<in> set (split_ws line). all_upper w))"
  by (auto simp: is_heading_def endswith_any_def endswith_single isupper_eq istitle_eq
        list_ex_iff)

theorem is_heading_iff_witness:
  "is_heading ''POWER PLATFORM OVERVIEW'' \<and> is_heading ''Power Apps'' \<and>
   \<not> is_heading ''This has no period''"
proof -
  have 1: "all_upper ''POWER PLATFORM OVERVIEW''" by code_simp
  have 2: "title_case ''Power Apps''" by code_simp
  have 3: "\<not> (all_upper ''This has no period'' \<or> title_case ''This has no period'' \<or>
              (\<exists>w \<in> set (split_ws ''This has no period''). all_upper w))"
    by code_simp
  have "is_heading ''POWER PLATFORM OVERVIEW''"
    unfolding is_heading_iff [of "''POWER PLATFORM OVERVIEW''"] using 1 by simp
  moreover have "is_heading ''Power Apps''"
    unfolding is_heading_iff [of "''Power Apps''"] using 2 by simp
  moreover have "\<not> is_heading ''This has no period''"
    unfolding is_heading_iff [of "''This has no period''"] using 3 by blast
  ultimately show ?thesis by blast
qed

section \<open>The chunker\<close>

lemma with_terminator_last:
  "with_terminator s \<noteq> [] \<and> last (with_terminator s) \<in> {CHR ''.'', CHR ''!'', CHR ''?''}"
  by (simp add: with_terminator_def ends_terminal)

lemma trimmed_with_terminator: "trimmed s \<Longrightarrow> trimmed (with_terminator s)"
  by (auto simp: with_terminator_def trimmed_def)

lemma sentences_trimmed: "s \<in> set (sentences_of t) \<Longrightarrow> trimmed s"
  by (auto simp: sentences_of_def trimmed_strip)

lemma buffer_chunk_text: "g \<noteq> [] \<Longrightarrow> buffer_of g = chunk_text g @ '' ''"
  by (simp add: buffer_of_def chunk_text_def join_space_buffer map_map comp_def)

lemma chunk_text_last:
  "g \<noteq> [] \<Longrightarrow>
   chunk_text g \<noteq> [] \<and> last (chunk_text g) \<in> {CHR ''.'', CHR ''!'', CHR ''?''}"
  using join_last [of "map with_terminator g" "'' ''"] with_terminator_last [of "last g"]
  by (simp add: chunk_text_def last_map)

lemma trimmed_chunk_text:
  assumes "g \<noteq> []" "\<forall>s \<in> set g. trimmed s"
  shows "trimmed (chunk_text g)"
proof -
  have "trimmed (with_terminator (hd g))"
    using assms by (simp add: trimmed_with_terminator)
  then have "\<not> isspace (hd (chunk_text g))"
    using assms join_hd [of "map with_terminator g" "'' ''"]
    by (simp add: chunk_text_def trimmed_def hd_map)
  with chunk_text_last [OF assms(1)] show ?thesis
    by (auto simp: trimmed_def)
qed

lemma strip_buffer:
  "g \<noteq> [] \<Longrightarrow> \<forall>s \<in> set g. trimmed s \<Longrightarrow> strip (buffer_of g) = chunk_text g"
  by (simp add: buffer_chunk_text strip_append_space trimmed_chunk_text)

lemma buffer_of_Nil_iff: "buffer_of g = [] \<longleftrightarrow> g = []"
  by (cases g) (simp_all add: buffer_of_def)

lemma buffer_of_snoc: "buffer_of (g @ [s]) = buffer_of g @ with_terminator s @ '' ''"
  by (simp add: buffer_of_def)

lemma chunk_loop_groups:
  assumes "\<forall>s \<in> set ss. trimmed s" "\<forall>s \<in> set g. trimmed s" "fits m g"
    and "chunk_loop m ss chunks (buffer_of g) = (chunks', cur')"
  shows "\<exists>gs g'. chunks' = chunks @ map chunk_text gs \<and> cur' = buffer_of g' \<and>
           concat gs @ g' = g @ ss \<and> [] \<notin> set gs \<and> (\<forall>x \<in> set gs. fits m x) \<and> fits m g' \<and>
           (\<forall>s \<in> set g'. trimmed s)"
  using assms
proof (induction ss arbitrary: g chunks)
  case Nil
  then have "chunks' = chunks @ map chunk_text [] \<and> cur' = buffer_of g \<and>
      concat [] @ g = g @ [] \<and> [] \<notin> set ([] :: string list list) \<and>
      (\<forall>x \<in> set []. fits m x) \<and> fits m g \<and> (\<forall>s \<in> set g. trimmed s)"
    by simp
  then show ?case by blast
next
  case (Cons s ss)
  let ?sws = "with_terminator s @ '' ''"
  have sws: "?sws = buffer_of [s]" by (simp add: buffer_of_def)
  show ?case
  proof (cases "int (length (buffer_of g)) + int (length ?sws) > m")
    case True
    let ?chunks1 = "if buffer_of g \<noteq> [] then chunks @ [strip (buffer_of g)] else chunks"
    have step: "chunk_loop m (s # ss) chunks (buffer_of g) = chunk_loop m ss ?chunks1 ?sws"
      by (simp only: chunk_loop.simps Let_def True if_True)
    have run: "chunk_loop m ss ?chunks1 (buffer_of [s]) = (chunks', cur')"
      using Cons.prems(4) unfolding step sws .
    have "\<forall>x \<in> set [s]. trimmed x" using Cons.prems(1) by simp
    moreover have "fits m [s]" by (simp add: fits_def)
    moreover have "\<forall>x \<in> set ss. trimmed x" using Cons.prems(1) by simp
    ultimately obtain gs g' where
      r: "chunks' = ?chunks1 @ map chunk_text gs" "cur' = buffer_of g'"
         "concat gs @ g' = [s] @ ss" "[] \<notin> set gs" "\<forall>x \<in> set gs. fits m x" "fits m g'"
         "\<forall>s \<in> set g'. trimmed s"
      using Cons.IH [OF _ _ _ run] by blast
    show ?thesis
    proof (cases "g = []")
      case True
      with r have "chunks' = chunks @ map chunk_text gs \<and> cur' = buffer_of g' \<and>
          concat gs @ g' = g @ s # ss \<and> [] \<notin> set gs \<and> (\<forall>x \<in> set gs. fits m x) \<and> fits m g' \<and>
          (\<forall>s \<in> set g'. trimmed s)"
        by (simp add: buffer_of_Nil_iff)
      then show ?thesis by blast
    next
      case False
      with r Cons.prems(2,3)
      have "chunks' = chunks @ map chunk_text (g # gs) \<and> cur' = buffer_of g' \<and>
          concat (g # gs) @ g' = g @ s # ss \<and> [] \<notin> set (g # gs) \<and>
          (\<forall>x \<in> set (g # gs). fits m x) \<and> fits m g' \<and> (\<forall>s \<in> set g'. trimmed s)"
        by (simp add: buffer_of_Nil_iff strip_buffer)
      then show ?thesis by blast
    qed
  next
    case False
    have step: "chunk_loop m (s # ss) chunks (buffer_of g) =
                  chunk_loop m ss chunks (buffer_of g @ ?sws)"
      by (simp only: chunk_loop.simps Let_def False if_False)
    have run: "chunk_loop m ss chunks (buffer_of (g @ [s])) = (chunks', cur')"
      using Cons.prems(4) unfolding step buffer_of_snoc .
    have "\<forall>x \<in> set (g @ [s]). trimmed x" using Cons.prems(1,2) by simp
    moreover have "fits m (g @ [s])"
      using False by (simp add: fits_def buffer_of_snoc)
    moreover have "\<forall>x \<in> set ss. trimmed x" using Cons.prems(1) by simp
    ultimately obtain gs g' where
      r: "chunks' = chunks @ map chunk_text gs" "cur' = buffer_of g'"
         "concat gs @ g' = (g @ [s]) @ ss" "[] \<notin> set gs" "\<forall>x \<in> set gs. fits m x" "fits m g'"
         "\<forall>s \<in> set g'. trimmed s"
      using Cons.IH [OF _ _ _ run] by blast
    then have "chunks' = chunks @ map chunk_text gs \<and> cur' = buffer_of g' \<and>
          concat gs @ g' = g @ s # ss \<and> [] \<notin> set gs \<and> (\<forall>x \<in> set gs. fits m x) \<and> fits m g' \<and>
          (\<forall>s \<in> set g'. trimmed s)"
      by simp
    then show ?thesis by blast
  qed
qed

lemma split_into_chunks_groups:
  "\<exists>gs. split_into_chunks (Some t) m = Inr (map chunk_text gs) \<and>
         concat gs = sentences_of t \<and> [] \<notin> set gs \<and> (\<forall>g \<in> set gs. fits m g)"
proof -
  obtain chunks' cur' where
    run: "chunk_loop m (sentences_of t) [] (buffer_of []) = (chunks', cur')"
    by (cases "chunk_loop m (sentences_of t) [] (buffer_of [])") blast
  have "\<forall>s \<in> set (sentences_of t). trimmed s" by (simp add: sentences_trimmed)
  moreover have "\<forall>s \<in> set ([] :: string list). trimmed s" by simp
  moreover have "fits m []" by (simp add: fits_def)
  ultimately obtain gs g' where
    r: "chunks' = [] @ map chunk_text gs" "cur' = buffer_of g'"
       "concat gs @ g' = [] @ sentences_of t" "[] \<notin> set gs" "\<forall>x \<in> set gs. fits m x"
       "fits m g'" "\<forall>s \<in> set g'. trimmed s"
    using chunk_loop_groups [OF _ _ _ run] by blast
  have res: "split_into_chunks (Some t) m =
        Inr (if cur' \<noteq> [] then chunks' @ [strip cur'] else chunks')"
    using run by (simp add: split_into_chunks_def buffer_of_def)
  show ?thesis
  proof (cases "g' = []")
    case True
    with r res have "split_into_chunks (Some t) m = Inr (map chunk_text gs) \<and>
         concat gs = sentences_of t \<and> [] \<notin> set gs \<and> (\<forall>g \<in> set gs. fits m g)"
      by (simp add: buffer_of_Nil_iff)
    then show ?thesis by blast
  next
    case False
    with r res have "split_into_chunks (Some t) m = Inr (map chunk_text (gs @ [g'])) \<and>
         concat (gs @ [g']) = sentences_of t \<and> [] \<notin> set (gs @ [g']) \<and>
         (\<forall>g \<in> set (gs @ [g']). fits m g)"
      by (simp add: buffer_of_Nil_iff strip_buffer)
    then show ?thesis by blast
  qed
qed

lemma fits_length:
  assumes "g \<noteq> []" "fits m g"
  shows "int (length (chunk_text g)) \<le> m \<or> (\<exists>s. g = [s])"
proof (cases "length g \<le> 1")
  case True
  with assms(1) have "\<exists>s. g = [s]" by (cases g) auto
  then show ?thesis ..
next
  case False
  with assms have "int (length (buffer_of g)) \<le> m" by (simp add: fits_def)
  then have "int (length (chunk_text g)) \<le> m"
    using assms(1) by (simp add: buffer_chunk_text)
  then show ?thesis ..
qed

lemma filter_split_sentences:
  "filter (\<lambda>c. \<not> isspace c) (concat (split_sentences piece s))
     = filter (\<lambda>c. \<not> isspace c) (piece @ s)"
proof (induction piece s rule: split_sentences.induct)
  case (1 piece)
  then show ?case by simp
next
  case (2 piece c cs)
  show ?case
  proof (cases "isspace c \<and> endswith_any piece [''.'', ''!'', ''?'']")
    case True
    then have "filter (\<lambda>c. \<not> isspace c) (concat (split_sentences piece (c # cs)))
        = filter (\<lambda>c. \<not> isspace c) piece
          @ filter (\<lambda>c. \<not> isspace c) (concat (split_sentences [] (dropWhile isspace cs)))"
      by simp
    also have "\<dots> = filter (\<lambda>c. \<not> isspace c) piece
          @ filter (\<lambda>c. \<not> isspace c) (dropWhile isspace cs)"
      using 2(1) True by simp
    finally show ?thesis using True by (simp add: filter_dropWhile_neg)
  next
    case False
    then have "split_sentences piece (c # cs) = split_sentences (piece @ [c]) cs"
      by auto
    then show ?thesis using 2(2) False by simp
  qed
qed

lemma filter_kept_pieces:
  "filter (\<lambda>c. \<not> isspace c) (concat (map strip (filter (\<lambda>s. strip s \<noteq> []) xs)))
     = filter (\<lambda>c. \<not> isspace c) (concat xs)"
proof (induction xs)
  case Nil
  then show ?case by simp
next
  case (Cons x xs)
  show ?case
  proof (cases "strip x = []")
    case True
    then have "filter (\<lambda>c. \<not> isspace c) x = []"
      using filter_strip [of x] by simp
    with True Cons show ?thesis by simp
  next
    case False
    with Cons show ?thesis by (simp add: filter_strip)
  qed
qed

lemma sentences_keep_text:
  "filter (\<lambda>c. \<not> isspace c) (concat (sentences_of t)) = filter (\<lambda>c. \<not> isspace c) t"
  by (simp add: sentences_of_def filter_kept_pieces filter_split_sentences filter_strip)

text \<open>
  C3. On every text and every bound the chunker returns; its chunks are the texts of
  consecutive non-empty groups that partition the sentence sequence, so no sentence is split
  across chunks; and every chunk is no longer than the bound unless its group is a single
  sentence (the chunk is then that sentence in its terminated form).
\<close>

theorem chunks_bounded_or_single_sentence:
  "\<exists>gs. split_into_chunks (Some t) m = Inr (map chunk_text gs) \<and>
         concat gs = sentences_of t \<and> [] \<notin> set gs \<and>
         (\<forall>g \<in> set gs. int (length (chunk_text g)) \<le> m \<or> (\<exists>s. g = [s]))"
proof -
  obtain gs where gs: "split_into_chunks (Some t) m = Inr (map chunk_text gs)"
      "concat gs = sentences_of t" "[] \<notin> set gs" "\<forall>g \<in> set gs. fits m g"
    using split_into_chunks_groups [of t m] by blast
  have "\<forall>g \<in> set gs. int (length (chunk_text g)) \<le> m \<or> (\<exists>s. g = [s])"
  proof
    fix g assume "g \<in> set gs"
    with gs(3,4) have "g \<noteq> []" "fits m g" by auto
    then show "int (length (chunk_text g)) \<le> m \<or> (\<exists>s. g = [s])" by (rule fits_length)
  qed
  with gs(1,2,3) show ?thesis by blast
qed

theorem chunks_bounded_or_single_sentence_witness:
  "split_into_chunks (Some ''Hi there. This sentence is long. Go.'') 10
     = Inr [''Hi there.'', ''This sentence is long.'', ''Go.''] \<and>
   (\<exists>s \<in> set (sentences_of ''Hi there. This sentence is long. Go.'').
      ''This sentence is long.'' = with_terminator s)"
proof -
  let ?t = "''Hi there. This sentence is long. Go.''"
  let ?B = "''This sentence is long.''"
  have v: "split_into_chunks (Some ?t) 10 = Inr [''Hi there.'', ?B, ''Go.'']"
    by code_simp
  obtain gs where gs: "split_into_chunks (Some ?t) 10 = Inr (map chunk_text gs)"
      "concat gs = sentences_of ?t"
      "\<forall>g \<in> set gs. int (length (chunk_text g)) \<le> 10 \<or> (\<exists>s. g = [s])"
    using chunks_bounded_or_single_sentence [of ?t 10] by blast
  from v gs(1) have "map chunk_text gs = [''Hi there.'', ?B, ''Go.'']" by simp
  then have "?B \<in> set (map chunk_text gs)" by simp
  then obtain g where g: "g \<in> set gs" "chunk_text g = ?B" by auto
  have "\<not> int (length ?B) \<le> 10" by simp
  with gs(3) g obtain s where s: "g = [s]" by metis
  then have "s \<in> set g" by simp
  with g(1) have "s \<in> set (concat gs)" unfolding set_concat by blast
  moreover from s g(2) have "?B = with_terminator s" by (simp add: chunk_text_def)
  ultimately have "\<exists>s \<in> set (sentences_of ?t). ?B = with_terminator s"
    unfolding gs(2) by blast
  with v show ?thesis by (rule conjI)
qed

text \<open>
  C4. Joining the chunks in order with single spaces gives the terminated sentences of the
  text joined in order with single spaces: no sentence is lost, duplicated or reordered, and
  the only characters added are the terminators. The sentences themselves hold exactly the
  non-whitespace characters of the text, in order.
\<close>

theorem chunks_concatenate_to_sentences:
  "\<exists>chunks. split_into_chunks (Some t) m = Inr chunks \<and>
     join '' '' chunks = join '' '' (map with_terminator (sentences_of t)) \<and>
     filter (\<lambda>c. \<not> isspace c) (concat (sentences_of t)) = filter (\<lambda>c. \<not> isspace c) t"
proof -
  obtain gs where gs: "split_into_chunks (Some t) m = Inr (map chunk_text gs)"
      "concat gs = sentences_of t" "[] \<notin> set gs"
    using split_into_chunks_groups [of t m] by blast
  have ne: "[] \<notin> set (map (map with_terminator) gs)" using gs(3) by auto
  have "join '' '' (map chunk_text gs)
          = join '' '' (map (join '' '') (map (map with_terminator) gs))"
    by (simp add: chunk_text_def [abs_def] comp_def)
  also have "\<dots> = join '' '' (concat (map (map with_terminator) gs))"
    using ne by (rule join_concat)
  also have "\<dots> = join '' '' (map with_terminator (sentences_of t))"
    by (simp add: map_concat gs(2) [symmetric])
  finally show ?thesis using gs(1) sentences_keep_text by blast
qed

theorem chunks_concatenate_to_sentences_witness:
  "split_into_chunks (Some ''Hi there.   Go now! Run fast'') 20
     = Inr [''Hi there. Go now!'', ''Run fast.''] \<and>
   join '' '' [''Hi there. Go now!'', ''Run fast.'']
     = join '' '' (map with_terminator (sentences_of ''Hi there.   Go now! Run fast''))"
proof -
  let ?t = "''Hi there.   Go now! Run fast''"
  have v: "split_into_chunks (Some ?t) 20 = Inr [''Hi there. Go now!'', ''Run fast.'']"
    by code_simp
  obtain chunks where c: "split_into_chunks (Some ?t) 20 = Inr chunks"
      "join '' '' chunks = join '' '' (map with_terminator (sentences_of ?t))"
    using chunks_concatenate_to_sentences [of ?t 20] by blast
  from v c(1) have "chunks = [''Hi there. Go now!'', ''Run fast.'']" by simp
  with c(2) have "join '' '' [''Hi there. Go now!'', ''Run fast.'']
     = join '' '' (map with_terminator (sentences_of ?t))"
    by (simp only:)
  with v show ?thesis by (rule conjI)
qed

text \<open>
  C10. Every chunk is non-empty and its last character is \<open>.\<close>, \<open>!\<close> or \<open>?\<close>; in particular
  no chunk ends in whitespace.
\<close>

theorem chunks_end_with_terminator:
  "\<exists>chunks. split_into_chunks (Some t) m = Inr chunks \<and>
     (\<forall>c \<in> set chunks. c \<noteq> [] \<and> last c \<in> {CHR ''.'', CHR ''!'', CHR ''?''})"
proof -
  obtain gs where gs: "split_into_chunks (Some t) m = Inr (map chunk_text gs)" "[] \<notin> set gs"
    using split_into_chunks_groups [of t m] by blast
  have "\<forall>c \<in> set (map chunk_text gs). c \<noteq> [] \<and> last c \<in> {CHR ''.'', CHR ''!'', CHR ''?''}"
  proof
    fix c assume "c \<in> set (map chunk_text gs)"
    then obtain g where "g \<in> set gs" "c = chunk_text g" by auto
    with gs(2) have "g \<noteq> []" by auto
    then show "c \<noteq> [] \<and> last c \<in> {CHR ''.'', CHR ''!'', CHR ''?''}"
      unfolding \<open>c = chunk_text g\<close> by (rule chunk_text_last)
  qed
  with gs(1) show ?thesis by blast
qed

theorem chunks_end_with_terminator_witness:
  "split_into_chunks (Some ''Hi there.   Go now! Run fast'') 20
     = Inr [''Hi there. Go now!'', ''Run fast.''] \<and>
   last ''Hi there. Go now!'' \<in> {CHR ''.'', CHR ''!'', CHR ''?''} \<and>
   last ''Run fast.'' \<in> {CHR ''.'', CHR ''!'', CHR ''?''}"
proof -
  let ?t = "''Hi there.   Go now! Run fast''"
  have v: "split_into_chunks (Some ?t) 20 = Inr [''Hi there. Go now!'', ''Run fast.'']"
    by code_simp
  obtain chunks where c: "split_into_chunks (Some ?t) 20 = Inr chunks"
      "\<forall>c \<in> set chunks. c \<noteq> [] \<and> last c \<in> {CHR ''.'', CHR ''!'', CHR ''?''}"
    using chunks_end_with_terminator [of ?t 20] by blast
  from v c(1) have "chunks = [''Hi there. Go now!'', ''Run fast.'']" by simp
  with c(2) have "last ''Hi there. Go now!'' \<in> {CHR ''.'', CHR ''!'', CHR ''?''} \<and>
      last ''Run fast.'' \<in> {CHR ''.'', CHR ''!'', CHR ''?''}"
    by (simp only: list.set ball_simps)
  with v show ?thesis by (rule conjI)
qed

section \<open>The whole pipeline\<close>

lemma NL_not_space [simp]: "NL \<noteq> CHR '' ''" "CHR '' '' \<noteq> NL"
  by (simp_all add: NL_def)

lemma NL_not_punct [simp]: "NL \<noteq> CHR ''.''" "NL \<noteq> CHR ''?''" "NL \<noteq> CHR ''!''"
  by (simp_all add: NL_def)

lemma set_sub_run: "set (sub_run n P rep s) \<subseteq> set rep \<union> set s"
proof (induction n P rep s rule: sub_run.induct)
  case (1 n P rep)
  then show ?case by simp
next
  case (2 n P rep c cs)
  show ?case
  proof (cases "P c \<and> n \<le> Suc (length (takeWhile P cs))")
    case True
    have "set (dropWhile P cs) \<subseteq> set cs" by (auto dest: set_dropWhileD)
    with 2(1) True show ?thesis by auto
  next
    case False
    with 2(2) show ?thesis by auto
  qed
qed

lemma sub_run1_removes:
  "x \<in> set (sub_run 1 P rep s) \<Longrightarrow> x \<in> set rep \<or> (x \<in> set s \<and> \<not> P x)"
proof (induction "1::nat" P rep s rule: sub_run.induct)
  case (1 P rep)
  then show ?case by simp
next
  case (2 P rep c cs)
  show ?case
  proof (cases "P c")
    case True
    with 2 show ?thesis by (auto dest: set_dropWhileD)
  next
    case False
    with 2 show ?thesis by auto
  qed
qed

lemma sub_newlines_id: "NL \<notin> set s \<Longrightarrow> sub_newlines s = s"
  by (induction s) (auto simp: Let_def)

lemma sub_newlines_one: "NL \<notin> set s \<Longrightarrow> sub_newlines (s @ [NL]) = s @ [NL]"
  by (induction s) (auto simp: Let_def)

lemma takeWhile_snoc_not: "\<not> P c \<Longrightarrow> takeWhile P (xs @ [c]) = takeWhile P xs"
  by (induction xs) auto

lemma dropWhile_snoc_not: "\<not> P c \<Longrightarrow> dropWhile P (xs @ [c]) = dropWhile P xs @ [c]"
  by (induction xs) auto

lemma sub_run_snoc: "\<not> P c \<Longrightarrow> sub_run n P rep (a @ [c]) = sub_run n P rep a @ [c]"
proof (induction n P rep a rule: sub_run.induct)
  case (1 n P rep)
  then show ?case by simp
next
  case (2 n P rep x xs)
  then show ?case
    by (simp add: takeWhile_snoc_not dropWhile_snoc_not)
qed

lemma strip_snoc_space: "isspace c \<Longrightarrow> strip (a @ [c]) = strip a"
proof (cases "\<forall>x \<in> set a. isspace x")
  case True
  assume "isspace c"
  with True have "\<forall>x \<in> set (a @ [c]). isspace x" by simp
  then have "dropWhile isspace (a @ [c]) = []" by (simp only: dropWhile_eq_Nil_conv)
  moreover from True have "dropWhile isspace a = []" by (simp only: dropWhile_eq_Nil_conv)
  ultimately show ?thesis by (simp only: strip_def)
next
  case False
  assume c: "isspace c"
  from False obtain x where "x \<in> set a" "\<not> isspace x" by auto
  then have "dropWhile isspace (a @ [c]) = dropWhile isspace a @ [c]"
    by (rule dropWhile_append1)
  with c show ?thesis by (simp add: strip_def)
qed

lemma strip_strip: "strip (strip s) = strip s"
  by (cases "strip s = []") (simp_all add: strip_trimmed trimmed_strip)

lemma basic_cleanup_unfold:
  "basic_cleanup t =
     sub_run 2 (\<lambda>c. c = CHR ''!'') ''!''
       (sub_run 2 (\<lambda>c. c = CHR ''?'') ''?''
          (sub_run 2 (\<lambda>c. c = CHR ''.'') ''.''
             (sub_disallowed (sub_newlines (sub_run 1 isspace '' '' t)))))"
  by (simp add: basic_cleanup_def cleanup_patterns_def)

lemma basic_cleanup_no_NL: "NL \<notin> set (basic_cleanup t)"
proof -
  let ?t1 = "sub_run 1 isspace '' '' t"
  have 1: "NL \<notin> set ?t1" using sub_run1_removes [of NL isspace "'' ''" t] by auto
  then have 2: "NL \<notin> set (sub_disallowed (sub_newlines ?t1))"
    by (simp add: sub_newlines_id sub_disallowed_def)
  have "set (basic_cleanup t) \<subseteq> {CHR ''!'', CHR ''?'', CHR ''.''} \<union> set (sub_disallowed (sub_newlines ?t1))"
    unfolding basic_cleanup_unfold
    using set_sub_run [of 2 "\<lambda>c. c = CHR ''!''" "''!''"]
          set_sub_run [of 2 "\<lambda>c. c = CHR ''?''" "''?''"]
          set_sub_run [of 2 "\<lambda>c. c = CHR ''.''" "''.''"]
    by fastforce
  with 2 show ?thesis by auto
qed

lemma filter_one_line:
  "NL \<notin> set t \<Longrightarrow>
   filter_unwanted_content t = (if spec_is_noise (strip t) then [] else strip t)"
  by (simp add: filter_unwanted_content_eq split_on_id)

lemma set_emitted: "set (emitted_line l) \<subseteq> set l \<union> {CHR ''.''}"
  by (auto simp: emitted_line_def spec_structure_line_def)

lemma structure_one_line:
  assumes "NL \<notin> set l" "trimmed l"
  shows "structure_for_audio l =
           (if is_heading l then emitted_line l @ [NL] else emitted_line l)"
proof -
  have "structure_for_audio l = join [NL] (spec_structure_line l)"
    using assms by (simp add: structure_for_audio_def structure_loop_eq split_on_id
        strip_trimmed trimmed_def)
  then show ?thesis
    by (simp add: emitted_line_def spec_structure_line_def)
qed

lemma structure_empty: "structure_for_audio [] = []"
  by (simp add: structure_for_audio_def)

lemma normalize_empty: "normalize_spacing [] = []"
  by (simp add: normalize_spacing_def)

lemma set_squeeze: "set (squeeze s) \<subseteq> {CHR '' ''} \<union> set s"
  using set_sub_run [of 1 "\<lambda>c. c = CHR '' ''" "'' ''" s] by (simp add: squeeze_def)

lemma normalize_spacing_eq:
  "normalize_spacing x = join [NL] (map strip (split_on NL (sub_newlines (squeeze x))))"
  by (simp only: normalize_spacing_def Let_def squeeze_def)

lemma normalize_one_line:
  assumes "NL \<notin> set e"
  shows "strip (normalize_spacing e) = strip (squeeze e)"
    and "strip (normalize_spacing (e @ [NL])) = strip (squeeze e)"
proof -
  have n: "NL \<notin> set (squeeze e)" using assms set_squeeze [of e] by auto
  show "strip (normalize_spacing e) = strip (squeeze e)"
    using n by (simp add: normalize_spacing_eq sub_newlines_id split_on_id strip_strip)
  have "squeeze (e @ [NL]) = squeeze e @ [NL]"
    by (simp add: squeeze_def sub_run_snoc)
  moreover have "split_on NL (squeeze e @ [NL]) = [squeeze e, []]"
    using n split_on_append_sep [of NL "squeeze e" "[]"] by simp
  ultimately have "normalize_spacing (e @ [NL]) = strip (squeeze e) @ [NL]"
    using n by (simp add: normalize_spacing_eq sub_newlines_one)
  then show "strip (normalize_spacing (e @ [NL])) = strip (squeeze e)"
    by (simp add: strip_snoc_space strip_strip)
qed

lemma noise_Nil: "spec_is_noise []"
  by (simp add: spec_is_noise_def)

lemma pipeline_shape:
  "clean_and_structure (Some raw) =
     (if raw = [] \<or> spec_is_noise (strip (basic_cleanup raw)) then []
      else strip (squeeze (emitted_line (strip (basic_cleanup raw)))))"
proof (cases "raw = []")
  case True
  then show ?thesis by (simp add: clean_and_structure_def)
next
  case False
  let ?l = "strip (basic_cleanup raw)"
  have nl: "NL \<notin> set (basic_cleanup raw)" by (rule basic_cleanup_no_NL)
  then have nl2: "NL \<notin> set ?l" using set_strip by fastforce
  have c: "clean_and_structure (Some raw) =
      strip (normalize_spacing (structure_for_audio (filter_unwanted_content (basic_cleanup raw))))"
    using False by (simp add: clean_and_structure_def)
  show ?thesis
  proof (cases "spec_is_noise ?l")
    case True
    then show ?thesis
      using nl by (simp add: c filter_one_line structure_empty normalize_empty)
  next
    case noise: False
    then have "?l \<noteq> []" using noise_Nil by auto
    then have tr: "trimmed ?l" by (rule trimmed_strip)
    have e: "NL \<notin> set (emitted_line ?l)" using nl2 set_emitted [of ?l] by auto
    have "filter_unwanted_content (basic_cleanup raw) = ?l"
      using nl noise by (simp add: filter_one_line)
    then have "clean_and_structure (Some raw) =
        strip (normalize_spacing (structure_for_audio ?l))" by (simp only: c)
    also have "\<dots> = strip (squeeze (emitted_line ?l))"
      using normalize_one_line [OF e] by (simp add: structure_one_line [OF nl2 tr])
    finally show ?thesis using False noise by simp
  qed
qed

text \<open>
  C9. The cleanup pass leaves no newline in the text, and the text returned by
  \<open>clean_and_structure\<close> contains no newline, for every input (absent input included).
\<close>

theorem clean_and_structure_no_newline:
  "NL \<notin> set (basic_cleanup raw) \<and> NL \<notin> set (clean_and_structure raw_text)"
proof
  show "NL \<notin> set (basic_cleanup raw)" by (rule basic_cleanup_no_NL)
next
  show "NL \<notin> set (clean_and_structure raw_text)"
  proof (cases raw_text)
    case None
    then show ?thesis by (simp add: clean_and_structure_def)
  next
    case (Some r)
    let ?l = "strip (basic_cleanup r)"
    have "NL \<notin> set ?l" using basic_cleanup_no_NL [of r] set_strip by fastforce
    then have "NL \<notin> set (emitted_line ?l)"
      using set_emitted [of ?l] by auto
    then have "NL \<notin> set (squeeze (emitted_line ?l))"
      using set_squeeze [of "emitted_line ?l"] by auto
    then have "NL \<notin> set (strip (squeeze (emitted_line ?l)))"
      using set_strip by fastforce
    then show ?thesis unfolding Some pipeline_shape by simp
  qed
qed

theorem clean_and_structure_no_newline_witness:
  "clean_and_structure (Some ''POWER APPS\<newline>It works'') = ''POWER APPS It works.'' \<and>
   NL \<notin> set ''POWER APPS It works.''"
proof -
  have v: "clean_and_structure (Some ''POWER APPS\<newline>It works'') = ''POWER APPS It works.''"
    by code_simp
  from clean_and_structure_no_newline [of "[]" "Some ''POWER APPS\<newline>It works''", THEN conjunct2]
  have "NL \<notin> set ''POWER APPS It works.''" unfolding v .
  with v show ?thesis by (rule conjI)
qed

section \<open>A second pass over a cleaned text\<close>

lemma no_double_Cons:
  "no_double P (x # ys) = ((ys = [] \<or> \<not> (P x \<and> P (hd ys))) \<and> no_double P ys)"
  by (cases ys) auto

lemma no_double_mono: "\<forall>c \<in> set s. P c \<longrightarrow> Q c \<Longrightarrow> no_double Q s \<Longrightarrow> no_double P s"
  by (induction Q s rule: no_double.induct) auto

lemma no_double_append: "no_double P (a @ b) \<Longrightarrow> no_double P a \<and> no_double P b"
proof (induction a)
  case Nil
  then show ?case by simp
next
  case (Cons x a)
  then show ?case by (cases a) (auto simp: no_double_Cons)
qed

lemma no_double_snoc:
  "no_double P l \<Longrightarrow> l = [] \<or> \<not> (P (last l) \<and> P c) \<Longrightarrow> no_double P (l @ [c])"
  by (induction P l rule: no_double.induct) auto

lemma strip_sublist: "\<exists>pre suf. s = pre @ strip s @ suf"
proof -
  let ?a = "dropWhile isspace s"
  let ?b = "dropWhile isspace (rev ?a)"
  have "\<exists>pre. rev ?a = pre @ ?b" by (metis takeWhile_dropWhile_id)
  then obtain pre where "rev ?a = pre @ ?b" ..
  then have "?a = rev ?b @ rev pre" by (metis rev_append rev_rev_ident)
  then have "?a = strip s @ rev pre" by (simp only: strip_def)
  moreover have "s = takeWhile isspace s @ ?a" by simp
  ultimately have "s = takeWhile isspace s @ strip s @ rev pre" by simp
  then show ?thesis by blast
qed

lemma no_double_strip: "no_double P s \<Longrightarrow> no_double P (strip s)"
proof -
  assume a: "no_double P s"
  obtain pre suf where "s = pre @ strip s @ suf" using strip_sublist by blast
  with a have "no_double P (pre @ strip s @ suf)" by simp
  then show ?thesis using no_double_append by blast
qed

lemma no_double_dropWhile: "no_double P s \<Longrightarrow> no_double P (dropWhile Q s)"
proof -
  assume a: "no_double P s"
  have "s = takeWhile Q s @ dropWhile Q s" by simp
  with a have "no_double P (takeWhile Q s @ dropWhile Q s)" by simp
  then show ?thesis using no_double_append by blast
qed

lemma sub_run_keep_head:
  "\<not> P c \<Longrightarrow> sub_run n P rep (c # cs) = c # sub_run n P rep cs"
  by simp

lemma sub_run_head_cases:
  "cs \<noteq> [] \<Longrightarrow>
   sub_run n Q [q] cs \<noteq> [] \<and> (hd (sub_run n Q [q] cs) = q \<or> hd (sub_run n Q [q] cs) = hd cs)"
  by (cases cs) auto

lemma dropWhile_head: "dropWhile P cs = [] \<or> \<not> P (hd (dropWhile P cs))"
  using hd_dropWhile by blast

lemma no_double_sub_run_self:
  "P r \<Longrightarrow> n \<le> 2 \<Longrightarrow> no_double P (sub_run n P [r] s)"
proof (induction n P "[r]" s rule: sub_run.induct)
  case (1 n P)
  then show ?case by simp
next
  case (2 n P c cs)
  show ?case
  proof (cases "P c \<and> n \<le> Suc (length (takeWhile P cs))")
    case True
    let ?d = "dropWhile P cs"
    have ih: "no_double P (sub_run n P [r] ?d)" using 2(1) [OF True] 2(3,4) by simp
    have step: "sub_run n P [r] (c # cs) = r # sub_run n P [r] ?d"
      using True by simp
    have "sub_run n P [r] ?d = [] \<or> \<not> P (hd (sub_run n P [r] ?d))"
    proof (cases ?d)
      case Nil
      show ?thesis unfolding Nil by simp
    next
      case (Cons d ds)
      then have "\<not> P d" using dropWhile_head [of P cs] by simp
      then show ?thesis unfolding Cons by simp
    qed
    with ih show ?thesis unfolding step by (simp add: no_double_Cons)
  next
    case False
    have step: "sub_run n P [r] (c # cs) = c # sub_run n P [r] cs"
      by (simp only: sub_run.simps False if_False)
    have ih: "no_double P (sub_run n P [r] cs)" using 2(2) [OF False] 2(3,4) by simp
    have "sub_run n P [r] cs = [] \<or> \<not> (P c \<and> P (hd (sub_run n P [r] cs)))"
    proof (cases "P c")
      case True
      with False 2(4) have "length (takeWhile P cs) = 0" by linarith
      then have "takeWhile P cs = []" by simp
      then have "cs = [] \<or> \<not> P (hd cs)" by (cases cs) (auto split: if_splits)
      then show ?thesis by (cases cs) auto
    next
      case False
      then show ?thesis by simp
    qed
    with ih show ?thesis unfolding step by (simp add: no_double_Cons)
  qed
qed

lemma no_double_sub_run_other:
  "\<not> P q \<Longrightarrow> no_double P s \<Longrightarrow> no_double P (sub_run n Q [q] s)"
proof (induction n Q "[q]" s rule: sub_run.induct)
  case (1 n Q)
  then show ?case by simp
next
  case (2 n Q c cs)
  from 2(4) have cs: "no_double P cs" by (simp add: no_double_Cons)
  show ?case
  proof (cases "Q c \<and> n \<le> Suc (length (takeWhile Q cs))")
    case True
    have "no_double P (dropWhile Q cs)" using cs by (rule no_double_dropWhile)
    then have "no_double P (sub_run n Q [q] (dropWhile Q cs))"
      using 2(1) [OF True] 2(3) by simp
    moreover have "sub_run n Q [q] (c # cs) = q # sub_run n Q [q] (dropWhile Q cs)"
      using True by simp
    ultimately show ?thesis using 2(3) by (simp add: no_double_Cons)
  next
    case False
    have step: "sub_run n Q [q] (c # cs) = c # sub_run n Q [q] cs"
      by (simp only: sub_run.simps False if_False)
    have ih: "no_double P (sub_run n Q [q] cs)" using 2(2) [OF False] 2(3) cs by simp
    have "sub_run n Q [q] cs = [] \<or> \<not> (P c \<and> P (hd (sub_run n Q [q] cs)))"
    proof (cases "cs = []")
      case True
      then show ?thesis by simp
    next
      case ne: False
      from 2(4) ne have "\<not> (P c \<and> P (hd cs))" by (simp add: no_double_Cons)
      with sub_run_head_cases [OF ne, of n Q q] 2(3) show ?thesis by auto
    qed
    with ih show ?thesis unfolding step by (simp add: no_double_Cons)
  qed
qed

lemma sub_run2_id: "no_double P s \<Longrightarrow> sub_run 2 P rep s = s"
proof (induction s)
  case Nil
  then show ?case by simp
next
  case (Cons c cs)
  then have cs: "no_double P cs" and adj: "cs = [] \<or> \<not> (P c \<and> P (hd cs))"
    by (simp_all add: no_double_Cons)
  have no: "\<not> (P c \<and> 2 \<le> Suc (length (takeWhile P cs)))"
    using adj by (cases cs) auto
  have "sub_run 2 P rep (c # cs) = c # sub_run 2 P rep cs"
    by (simp only: sub_run.simps no if_False)
  with Cons.IH [OF cs] show ?case by simp
qed

lemma sub_run1_id:
  "\<forall>c \<in> set s. P c \<longrightarrow> c = r \<Longrightarrow> no_double P s \<Longrightarrow> sub_run 1 P [r] s = s"
proof (induction s)
  case Nil
  then show ?case by simp
next
  case (Cons c cs)
  then have cs: "no_double P cs" and adj: "cs = [] \<or> \<not> (P c \<and> P (hd cs))"
    by (simp_all add: no_double_Cons)
  have ih: "sub_run 1 P [r] cs = cs" using Cons.IH Cons.prems(1) cs by simp
  show ?case
  proof (cases "P c")
    case True
    with adj have d: "dropWhile P cs = cs" by (cases cs) auto
    have t: "P c \<and> 1 \<le> Suc (length (takeWhile P cs))" using True by simp
    have "sub_run 1 P [r] (c # cs) = r # sub_run 1 P [r] cs"
      using t d by simp
    with True ih Cons.prems(1) show ?thesis by simp
  next
    case False
    with ih show ?thesis by simp
  qed
qed

lemma sub_run_last:
  assumes "s \<noteq> []" "\<not> P (last s)"
  shows "sub_run n P rep s \<noteq> [] \<and> last (sub_run n P rep s) = last s"
proof -
  have "sub_run n P rep (butlast s @ [last s]) = sub_run n P rep (butlast s) @ [last s]"
    using assms(2) by (rule sub_run_snoc)
  then show ?thesis using assms(1) by simp
qed

lemma allowed_basic [simp]:
  "allowed_char (CHR '' '')" "allowed_char (CHR ''.'')" "allowed_char (CHR ''?'')"
  "allowed_char (CHR ''!'')"
  by (simp_all add: allowed_char_def)

lemma tidy_plain:
  "tidy s = (plain s \<and> no_double (\<lambda>c. c = CHR ''.'') s \<and> no_double (\<lambda>c. c = CHR ''?'') s \<and>
             no_double (\<lambda>c. c = CHR ''!'') s)"
  by (auto simp: tidy_def plain_def)

lemma plain_sub_run:
  assumes "plain s" "allowed_char r" "isspace r \<longrightarrow> r = CHR '' ''"
  shows "plain (sub_run n P [r] s)"
  using assms set_sub_run [of n P "[r]" s] unfolding plain_def by auto

lemma plain_subset: "plain s \<Longrightarrow> set t \<subseteq> set s \<Longrightarrow> plain t"
  unfolding plain_def by auto

lemma plain_snoc: "plain s \<Longrightarrow> plain (s @ ''.'')"
  unfolding plain_def by auto

lemma plain_after_first_patterns:
  "plain (sub_disallowed (sub_newlines (sub_run 1 isspace '' '' t)))"
proof -
  let ?t1 = "sub_run 1 isspace '' '' t"
  have w: "\<forall>c \<in> set ?t1. isspace c \<longrightarrow> c = CHR '' ''"
    using sub_run1_removes [of _ isspace "'' ''" t] by auto
  then have "NL \<notin> set ?t1" by auto
  then have "sub_newlines ?t1 = ?t1" by (rule sub_newlines_id)
  with w show ?thesis by (simp add: plain_def sub_disallowed_def)
qed

lemma tidy_basic_cleanup: "tidy (basic_cleanup t)"
proof -
  let ?t3 = "sub_disallowed (sub_newlines (sub_run 1 isspace '' '' t))"
  let ?t4 = "sub_run 2 (\<lambda>c. c = CHR ''.'') ''.'' ?t3"
  let ?t5 = "sub_run 2 (\<lambda>c. c = CHR ''?'') ''?'' ?t4"
  let ?t6 = "sub_run 2 (\<lambda>c. c = CHR ''!'') ''!'' ?t5"
  have p3: "plain ?t3" by (rule plain_after_first_patterns)
  have p4: "plain ?t4" using p3 by (rule plain_sub_run) simp_all
  have p5: "plain ?t5" using p4 by (rule plain_sub_run) simp_all
  have p6: "plain ?t6" using p5 by (rule plain_sub_run) simp_all
  have d4: "no_double (\<lambda>c. c = CHR ''.'') ?t4" by (rule no_double_sub_run_self) simp_all
  have d5: "no_double (\<lambda>c. c = CHR ''.'') ?t5" using _ d4 by (rule no_double_sub_run_other) simp
  have d6: "no_double (\<lambda>c. c = CHR ''.'') ?t6" using _ d5 by (rule no_double_sub_run_other) simp
  have q5: "no_double (\<lambda>c. c = CHR ''?'') ?t5" by (rule no_double_sub_run_self) simp_all
  have q6: "no_double (\<lambda>c. c = CHR ''?'') ?t6" using _ q5 by (rule no_double_sub_run_other) simp
  have e6: "no_double (\<lambda>c. c = CHR ''!'') ?t6" by (rule no_double_sub_run_self) simp_all
  from p6 d6 q6 e6 show ?thesis
    unfolding basic_cleanup_unfold tidy_plain by simp
qed

lemma tidy_strip: "tidy s \<Longrightarrow> tidy (strip s)"
  unfolding tidy_plain using plain_subset [OF _ set_strip] no_double_strip by blast

lemma emitted_line_cases:
  assumes "l \<noteq> []"
  shows "(emitted_line l = l \<and> last l \<in> {CHR ''.'', CHR ''!'', CHR ''?''}) \<or>
         (emitted_line l = l @ ''.'' \<and> last l \<noteq> CHR ''.'')"
proof (cases "is_heading l")
  case True
  then have "\<not> endswith_any l [''.'', ''!'', ''?'', '','', '';'', '':'']"
    by (simp add: is_heading_def)
  with assms have "last l \<noteq> CHR ''.''"
    by (auto simp: endswith_any_def endswith_single)
  with True show ?thesis by (simp add: emitted_line_def spec_structure_line_def)
next
  case False
  then show ?thesis by (auto simp: emitted_line_def spec_structure_line_def)
qed

lemma tidy_emitted:
  assumes "tidy l" "trimmed l"
  shows "tidy (emitted_line l)" "trimmed (emitted_line l)"
    "last (emitted_line l) \<in> {CHR ''.'', CHR ''!'', CHR ''?''}"
proof -
  have ne: "l \<noteq> []" using assms(2) by (simp add: trimmed_def)
  have t: "last l \<noteq> CHR ''.'' \<Longrightarrow> tidy (l @ ''.'')"
    using assms(1) unfolding tidy_plain
    by (auto intro!: plain_snoc no_double_snoc)
  have tr: "trimmed (l @ ''.'')" using assms(2) by (auto simp: trimmed_def)
  from emitted_line_cases [OF ne] assms t tr
  show "tidy (emitted_line l)" "trimmed (emitted_line l)"
    "last (emitted_line l) \<in> {CHR ''.'', CHR ''!'', CHR ''?''}"
    by auto
qed

lemma squeeze_trimmed:
  assumes "trimmed e"
  shows "trimmed (squeeze e)" "last (squeeze e) = last e"
proof -
  from assms obtain c cs where e: "e = c # cs" and c: "\<not> isspace c"
    by (cases e) (auto simp: trimmed_def)
  from c have "c \<noteq> CHR '' ''" by auto
  then have h: "squeeze e = c # squeeze cs" by (simp add: e squeeze_def)
  have "\<not> isspace (last e)" using assms by (simp add: trimmed_def)
  then have "last e \<noteq> CHR '' ''" by auto
  with e have l: "squeeze e \<noteq> [] \<and> last (squeeze e) = last e"
    unfolding squeeze_def by (intro sub_run_last) simp_all
  then show "last (squeeze e) = last e" ..
  from h c l assms show "trimmed (squeeze e)" by (simp add: trimmed_def)
qed

lemma tidy_squeeze:
  assumes "tidy e"
  shows "tidy (squeeze e)" "no_double (\<lambda>c. c = CHR '' '') (squeeze e)"
proof -
  have "plain (squeeze e)"
    unfolding squeeze_def using assms by (intro plain_sub_run) (simp_all add: tidy_plain)
  moreover have "no_double (\<lambda>c. c = CHR ''.'') (squeeze e)"
    unfolding squeeze_def using assms by (intro no_double_sub_run_other) (simp_all add: tidy_plain)
  moreover have "no_double (\<lambda>c. c = CHR ''?'') (squeeze e)"
    unfolding squeeze_def using assms by (intro no_double_sub_run_other) (simp_all add: tidy_plain)
  moreover have "no_double (\<lambda>c. c = CHR ''!'') (squeeze e)"
    unfolding squeeze_def using assms by (intro no_double_sub_run_other) (simp_all add: tidy_plain)
  ultimately show "tidy (squeeze e)" by (simp add: tidy_plain)
  show "no_double (\<lambda>c. c = CHR '' '') (squeeze e)"
    unfolding squeeze_def by (rule no_double_sub_run_self) simp_all
qed

lemma basic_cleanup_fixed:
  assumes "tidy r" "no_double (\<lambda>c. c = CHR '' '') r"
  shows "basic_cleanup r = r"
proof -
  have w: "\<forall>c \<in> set r. isspace c \<longrightarrow> c = CHR '' ''"
    using assms(1) by (simp add: tidy_def)
  then have "no_double isspace r" using assms(2) by (rule no_double_mono)
  with w have 1: "sub_run 1 isspace '' '' r = r" by (rule sub_run1_id)
  from w have "NL \<notin> set r" by auto
  then have 2: "sub_newlines r = r" by (rule sub_newlines_id)
  have 3: "sub_disallowed r = r"
    using assms(1) by (simp add: tidy_def sub_disallowed_def)
  have 4: "sub_run 2 (\<lambda>c. c = CHR ''.'') ''.'' r = r"
    using assms(1) by (intro sub_run2_id) (simp add: tidy_def)
  have 5: "sub_run 2 (\<lambda>c. c = CHR ''?'') ''?'' r = r"
    using assms(1) by (intro sub_run2_id) (simp add: tidy_def)
  have 6: "sub_run 2 (\<lambda>c. c = CHR ''!'') ''!'' r = r"
    using assms(1) by (intro sub_run2_id) (simp add: tidy_def)
  show ?thesis unfolding basic_cleanup_unfold 1 2 3 4 5 6 ..
qed

lemma not_heading_terminated:
  "r \<noteq> [] \<Longrightarrow> last r \<in> {CHR ''.'', CHR ''!'', CHR ''?''} \<Longrightarrow> \<not> is_heading r"
  by (auto simp: is_heading_def endswith_any_def endswith_single)

lemma not_heading_Nil: "\<not> is_heading []"
  by (simp add: is_heading_def isupper_def istitle_def split_ws_def)

lemma emitted_terminated:
  "r \<noteq> [] \<Longrightarrow> last r \<in> {CHR ''.'', CHR ''!'', CHR ''?''} \<Longrightarrow> emitted_line r = r"
  using not_heading_terminated [of r]
  by (simp add: emitted_line_def spec_structure_line_def)

lemma squeeze_fixed: "no_double (\<lambda>c. c = CHR '' '') r \<Longrightarrow> squeeze r = r"
  unfolding squeeze_def by (rule sub_run1_id) simp_all

lemma result_shape:
  "clean_and_structure (Some t) = [] \<or>
   (tidy (clean_and_structure (Some t)) \<and> trimmed (clean_and_structure (Some t)) \<and>
    no_double (\<lambda>c. c = CHR '' '') (clean_and_structure (Some t)) \<and>
    last (clean_and_structure (Some t)) \<in> {CHR ''.'', CHR ''!'', CHR ''?''})"
proof (cases "t = [] \<or> spec_is_noise (strip (basic_cleanup t))")
  case True
  then show ?thesis by (simp add: pipeline_shape)
next
  case False
  let ?l = "strip (basic_cleanup t)"
  let ?e = "emitted_line ?l"
  from False have "?l \<noteq> []" using noise_Nil by auto
  then have trl: "trimmed ?l" by (rule trimmed_strip)
  have tl: "tidy ?l" using tidy_basic_cleanup by (rule tidy_strip)
  note e = tidy_emitted [OF tl trl]
  note s = squeeze_trimmed [OF e(2)] tidy_squeeze [OF e(1)]
  have r: "clean_and_structure (Some t) = squeeze ?e"
    using False s(1) by (simp add: pipeline_shape strip_trimmed)
  show ?thesis unfolding r using s e(3) by simp
qed

text \<open>
  C6. As stated the claim fails: the text \<open>123\<close> is cleaned to \<open>123.\<close>, which the marker rule
  of the line filter removes on a second pass.
\<close>

theorem second_pass_not_idempotent:
  "clean_and_structure (Some (clean_and_structure (Some ''123'')))
     \<noteq> clean_and_structure (Some ''123'')"
  by code_simp

text \<open>
  C6, amended. For every text, a second pass over the cleaned text returns it unchanged when
  the cleaned text, taken as one line, matches no noise rule, and returns the empty text
  otherwise; the cleaned text is never classified as a heading (when it is not empty it ends
  in \<open>.\<close>, \<open>!\<close> or \<open>?\<close>).
\<close>

theorem second_pass_result:
  "clean_and_structure (Some (clean_and_structure (Some t))) =
     (if spec_is_noise (clean_and_structure (Some t)) then []
      else clean_and_structure (Some t)) \<and>
   \<not> is_heading (clean_and_structure (Some t))"
proof -
  let ?r = "clean_and_structure (Some t)"
  show ?thesis
  proof (cases "?r = []")
    case True
    then show ?thesis
      by (simp add: noise_Nil not_heading_Nil clean_and_structure_def)
  next
    case False
    with result_shape [of t] have r: "tidy ?r" "trimmed ?r"
      "no_double (\<lambda>c. c = CHR '' '') ?r" "last ?r \<in> {CHR ''.'', CHR ''!'', CHR ''?''}"
      by blast+
    have b: "strip (basic_cleanup ?r) = ?r"
      using r by (simp add: basic_cleanup_fixed strip_trimmed)
    have e: "strip (squeeze (emitted_line ?r)) = ?r"
      using False r by (simp add: emitted_terminated squeeze_fixed strip_trimmed)
    have "clean_and_structure (Some ?r) = (if spec_is_noise ?r then [] else ?r)"
      unfolding pipeline_shape [of ?r] b e using False by simp
    moreover have "\<not> is_heading ?r" using False r(4) by (rule not_heading_terminated)
    ultimately show ?thesis by (rule conjI)
  qed
qed

theorem second_pass_result_witness:
  "clean_and_structure (Some ''Power Apps overview'') = ''Power Apps overview.'' \<and>
   clean_and_structure (Some ''Power Apps overview.'') = ''Power Apps overview.'' \<and>
   clean_and_structure (Some ''123'') = ''123.'' \<and>
   clean_and_structure (Some ''123.'') = []"
proof -
  have v1: "clean_and_structure (Some ''Power Apps overview'') = ''Power Apps overview.''"
    by code_simp
  have n1: "spec_is_noise ''Power Apps overview.'' = False" by code_simp
  have v2: "clean_and_structure (Some ''123'') = ''123.''" by code_simp
  have n2: "spec_is_noise ''123.'' = True" by code_simp
  from second_pass_result [of "''Power Apps overview''", THEN conjunct1]
  have a: "clean_and_structure (Some ''Power Apps overview.'') = ''Power Apps overview.''"
    unfolding v1 n1 if_False .
  from second_pass_result [of "''123''", THEN conjunct1]
  have b: "clean_and_structure (Some ''123.'') = []"
    unfolding v2 n2 if_True .
  from v1 a v2 b show ?thesis by (intro conjI)
qed

end
